theory Spec2Isabelle
  imports Main
begin

section \<open>Strings of code points\<close>

text \<open>
  The script \<^verbatim>\<open>fix_tables.py\<close> works on Python \<^verbatim>\<open>str\<close> values, which are sequences of
  Unicode code points. A code point is modelled as a natural number and a string as a list
  of them, so that U+00A0 and the non-ASCII white space that \<^verbatim>\<open>str.strip\<close> removes are
  single elements, as they are in Python.
\<close>

type_synonym codepoint = nat
type_synonym pystr = "codepoint list"

definition lit :: "string \<Rightarrow> pystr" where
  \<comment> \<open>an ASCII literal of the source, as code points\<close>
  "lit s = map of_char s"

definition space :: codepoint where "space = 32"        \<comment> \<open>\<^verbatim>\<open>' '\<close>\<close>
definition hash :: codepoint where "hash = 35"          \<comment> \<open>\<^verbatim>\<open>'#'\<close>\<close>
definition backtick :: codepoint where "backtick = 96"  \<comment> \<open>the backtick\<close>
definition pipe :: codepoint where "pipe = 124"         \<comment> \<open>\<^verbatim>\<open>'|'\<close>\<close>
definition nbsp :: codepoint where "nbsp = 160"         \<comment> \<open>U+00A0, the no-break space\<close>

definition str_replace :: "codepoint \<Rightarrow> codepoint \<Rightarrow> pystr \<Rightarrow> pystr" where
  \<comment> \<open>\<^verbatim>\<open>s.replace(old, new)\<close> for one-character \<^verbatim>\<open>old\<close> and \<^verbatim>\<open>new\<close>\<close>
  "str_replace old new s = map (\<lambda>c. if c = old then new else c) s"

definition str_find :: "codepoint \<Rightarrow> pystr \<Rightarrow> int" where
  \<comment> \<open>\<^verbatim>\<open>s.find(c)\<close>: the lowest index of \<^verbatim>\<open>c\<close>, or -1\<close>
  "str_find c s = (if c \<in> set s then int (length (takeWhile (\<lambda>x. x \<noteq> c) s)) else - 1)"

definition slice_to :: "pystr \<Rightarrow> int \<Rightarrow> pystr" where
  \<comment> \<open>\<^verbatim>\<open>s[:k]\<close>; a negative bound counts from the end\<close>
  "slice_to s k = (if k < 0 then take (nat (int (length s) + k)) s else take (nat k) s)"

definition slice_from :: "pystr \<Rightarrow> int \<Rightarrow> pystr" where
  \<comment> \<open>\<^verbatim>\<open>s[k:]\<close>; a negative bound counts from the end\<close>
  "slice_from s k = (if k < 0 then drop (nat (int (length s) + k)) s else drop (nat k) s)"

definition index :: "pystr \<Rightarrow> int \<Rightarrow> codepoint option" where
  \<comment> \<open>\<^verbatim>\<open>s[k]\<close>; \<open>None\<close> stands for the IndexError of an index out of range\<close>
  "index s k =
     (let n = int (length s); j = (if k < 0 then n + k else k)
      in if 0 \<le> j \<and> j < n then Some (s ! nat j) else None)"

definition strip_chars :: "codepoint list" where
  \<comment> \<open>the code points for which \<^verbatim>\<open>str.isspace\<close> holds, which \<^verbatim>\<open>str.strip()\<close> removes\<close>
  "strip_chars =
     [9, 10, 11, 12, 13, 28, 29, 30, 31, 32, 133, 160, 5760,
      8192, 8193, 8194, 8195, 8196, 8197, 8198, 8199, 8200, 8201, 8202,
      8232, 8233, 8239, 8287, 12288]"

definition isspace :: "codepoint \<Rightarrow> bool" where
  "isspace c = (c \<in> set strip_chars)"

definition strip :: "pystr \<Rightarrow> pystr" where
  \<comment> \<open>\<^verbatim>\<open>s.strip()\<close>\<close>
  "strip s = rev (dropWhile isspace (rev (dropWhile isspace s)))"

definition startswith :: "pystr \<Rightarrow> pystr \<Rightarrow> bool" where
  \<comment> \<open>\<^verbatim>\<open>s.startswith(p)\<close>\<close>
  "startswith s p = (take (length p) s = p)"


section \<open>The space rewriter\<close>

text \<open>
  \<^verbatim>\<open>process_code_in_table(code_content)\<close>, lines 12 to 43. The index
  \<^verbatim>\<open>code_content[hash_pos - 1]\<close> is read only when \<^verbatim>\<open>hash_pos > 0\<close>, Python's \<^verbatim>\<open>and\<close>
  being evaluated left to right; lemma \<open>index_before_hash\<close> below shows that the read is
  in range, so the comparison with \<open>Some space\<close> loses no IndexError.
\<close>

definition process_code_in_table :: "pystr \<Rightarrow> pystr" where
  "process_code_in_table code_content =
     (if hash \<in> set code_content then
        (let hash_pos = str_find hash code_content in
         if hash_pos > 0 \<and> index code_content (hash_pos - 1) = Some space then
           (let before_space = str_replace space nbsp (slice_to code_content (hash_pos - 1));
                comment_part = str_replace space nbsp (slice_from code_content hash_pos)
            in before_space @ [space] @ comment_part)
         else
           (let before_hash = str_replace space nbsp (slice_to code_content hash_pos);
                comment_part = str_replace space nbsp (slice_from code_content hash_pos)
            in before_hash @ comment_part))
      else str_replace space nbsp code_content)"

text \<open>
  What the rewriter may do to one character: a space stays a space or becomes U+00A0,
  any other character stays.
\<close>

definition kept :: "codepoint \<Rightarrow> codepoint \<Rightarrow> bool" where
  "kept a b = (if a = space then b = space \<or> b = nbsp else b = a)"


section \<open>The table line\<close>

text \<open>
  \<^verbatim>\<open>process_table_line(line)\<close>, lines 46 to 67, is \<^verbatim>\<open>re.sub\<close> with the pattern
  of line 58: a backtick, the group \<^verbatim>\<open>[^`]+\<close> of one or more characters other than a
  backtick, and a backtick.

  \<open>match_here s\<close> is the attempt of the regular expression at the start of \<open>s\<close>: it gives
  group 1 and the text after the match. The group is greedy, so it first takes the whole
  run of characters other than a backtick; a shorter run is followed by a character of the
  run, which is not the closing backtick, so backtracking never finds another match.
\<close>

definition match_here :: "pystr \<Rightarrow> (pystr \<times> pystr) option" where
  "match_here s =
     (case s of
        [] \<Rightarrow> None
      | c # rest \<Rightarrow>
          if c = backtick then
            (let content = takeWhile (\<lambda>x. x \<noteq> backtick) rest;
                 tail = dropWhile (\<lambda>x. x \<noteq> backtick) rest
             in if content = [] then None
                else (case tail of [] \<Rightarrow> None | _ # after \<Rightarrow> Some (content, after)))
          else None)"

text \<open>
  \<^verbatim>\<open>re.sub(pattern, repl, line)\<close> for this pattern and a function \<open>repl\<close> of group 1: the
  leftmost match is replaced and the scan goes on after it; where the pattern does not
  match, one character is copied and the scan goes on at the next one. The pattern never
  matches the empty string, so no rule about empty matches is needed.
\<close>

function re_sub :: "(pystr \<Rightarrow> pystr) \<Rightarrow> pystr \<Rightarrow> pystr" where
  "re_sub repl [] = []"
| "re_sub repl (c # rest) =
     (case match_here (c # rest) of
        Some (content, after) \<Rightarrow> repl content @ re_sub repl after
      | None \<Rightarrow> c # re_sub repl rest)"
  by pat_completeness auto
termination
proof (relation "measure (\<lambda>(repl, s). length s)")
  show "wf (measure (\<lambda>(repl, s). length s))" by simp
next
  fix repl :: "pystr \<Rightarrow> pystr" and c rest x2 content after
  assume "match_here (c # rest) = Some x2" and "(content, after) = x2"
  then have "dropWhile (\<lambda>x. x \<noteq> backtick) rest = backtick # after
             \<or> (\<exists>b. dropWhile (\<lambda>x. x \<noteq> backtick) rest = b # after)"
    by (auto simp: match_here_def Let_def split: if_splits list.splits)
  then have "length after < length (dropWhile (\<lambda>x. x \<noteq> backtick) rest)"
    by auto
  also have "\<dots> \<le> length rest"
    by (rule length_dropWhile_le)
  finally show "((repl, after), (repl, c # rest)) \<in> measure (\<lambda>(repl, s). length s)"
    by simp
next
  fix repl :: "pystr \<Rightarrow> pystr" and c rest
  show "((repl, rest), (repl, c # rest)) \<in> measure (\<lambda>(repl, s). length s)"
    by simp
qed

definition replace_code :: "pystr \<Rightarrow> pystr" where
  \<comment> \<open>the nested function of lines 60 to 63, on \<^verbatim>\<open>match.group(1)\<close>\<close>
  "replace_code code_content =
     (let processed_code = process_code_in_table code_content
      in [backtick] @ processed_code @ [backtick])"

definition process_table_line :: "pystr \<Rightarrow> pystr" where
  "process_table_line line = re_sub replace_code line"

text \<open>
  The positions of a line that lie strictly inside a match of the pattern, found by the
  same scan as \<open>re_sub\<close>: \<open>True\<close> at the characters of group 1, \<open>False\<close> at the two
  backticks of a match and at every character that the scan copies.
\<close>

function span_mask :: "pystr \<Rightarrow> bool list" where
  "span_mask [] = []"
| "span_mask (c # rest) =
     (case match_here (c # rest) of
        Some (content, after) \<Rightarrow>
          [False] @ replicate (length content) True @ [False] @ span_mask after
      | None \<Rightarrow> False # span_mask rest)"
  by pat_completeness auto
termination
proof (relation "measure length")
  show "wf (measure length)" by simp
next
  fix c rest x2 content after
  assume "match_here (c # rest) = Some x2" and "(content, after) = x2"
  then have "\<exists>b. dropWhile (\<lambda>x. x \<noteq> backtick) rest = b # after"
    by (auto simp: match_here_def Let_def split: if_splits list.splits)
  then have "length after < length (dropWhile (\<lambda>x. x \<noteq> backtick) rest)"
    by auto
  also have "\<dots> \<le> length rest"
    by (rule length_dropWhile_le)
  finally show "(after, c # rest) \<in> measure length"
    by simp
next
  fix c :: codepoint and rest
  show "(rest, c # rest) \<in> measure length"
    by simp
qed


text \<open>
  A position outside the spans keeps its character: the pair is the mask bit and the
  character of the line, the second argument the character of the result.
\<close>

definition outside_same :: "bool \<times> codepoint \<Rightarrow> codepoint \<Rightarrow> bool" where
  "outside_same p b = (fst p \<or> b = snd p)"

text \<open>
  The extractor as the specification words it: a backtick, a run of zero or more
  characters other than a backtick, and a backtick. It differs from \<open>match_here\<close> only in
  accepting the empty run.
\<close>

definition spec_match_here :: "pystr \<Rightarrow> (pystr \<times> pystr) option" where
  "spec_match_here s =
     (case s of
        [] \<Rightarrow> None
      | c # rest \<Rightarrow>
          if c = backtick then
            (let content = takeWhile (\<lambda>x. x \<noteq> backtick) rest;
                 tail = dropWhile (\<lambda>x. x \<noteq> backtick) rest
             in (case tail of [] \<Rightarrow> None | _ # after \<Rightarrow> Some (content, after)))
          else None)"

function spec_re_sub :: "(pystr \<Rightarrow> pystr) \<Rightarrow> pystr \<Rightarrow> pystr" where
  "spec_re_sub repl [] = []"
| "spec_re_sub repl (c # rest) =
     (case spec_match_here (c # rest) of
        Some (content, after) \<Rightarrow> repl content @ spec_re_sub repl after
      | None \<Rightarrow> c # spec_re_sub repl rest)"
  by pat_completeness auto
termination
proof (relation "measure (\<lambda>(repl, s). length s)")
  show "wf (measure (\<lambda>(repl, s). length s))" by simp
next
  fix repl :: "pystr \<Rightarrow> pystr" and c rest x2 content after
  assume "spec_match_here (c # rest) = Some x2" and "(content, after) = x2"
  then have "\<exists>b. dropWhile (\<lambda>x. x \<noteq> backtick) rest = b # after"
    by (auto simp: spec_match_here_def Let_def split: if_splits list.splits)
  then have "length after < length (dropWhile (\<lambda>x. x \<noteq> backtick) rest)"
    by auto
  also have "\<dots> \<le> length rest"
    by (rule length_dropWhile_le)
  finally show "((repl, after), (repl, c # rest)) \<in> measure (\<lambda>(repl, s). length s)"
    by simp
next
  fix repl :: "pystr \<Rightarrow> pystr" and c rest
  show "((repl, rest), (repl, c # rest)) \<in> measure (\<lambda>(repl, s). length s)"
    by simp
qed


section \<open>The line loop\<close>

text \<open>
  The loop of lines 87 to 101, with its two variables \<^verbatim>\<open>in_table\<close> and
  \<^verbatim>\<open>processed_lines\<close> as the state.
\<close>

definition is_table_line :: "pystr \<Rightarrow> bool" where
  \<comment> \<open>the test of line 92\<close>
  "is_table_line line = startswith (strip line) [pipe]"

fun loop_body :: "bool \<times> pystr list \<Rightarrow> pystr \<Rightarrow> bool \<times> pystr list" where
  "loop_body (in_table, processed_lines) line =
     (if is_table_line line then
        (True, processed_lines @ [process_table_line line])
      else
        (if in_table \<and> strip line = [] then False else in_table,
         processed_lines @ [line]))"

definition line_loop :: "bool \<times> pystr list \<Rightarrow> pystr list \<Rightarrow> bool \<times> pystr list" where
  \<comment> \<open>the \<^verbatim>\<open>for\<close> loop from a given state\<close>
  "line_loop st lines = foldl loop_body st lines"

definition process_lines :: "pystr list \<Rightarrow> pystr list" where
  \<comment> \<open>lines 87 to 101: \<^verbatim>\<open>processed_lines\<close> after the loop, started as the source starts it\<close>
  "process_lines lines = snd (line_loop (False, []) lines)"


text \<open>
  The line loop as the specification words it: the flag after one line, and the map
  without state that rewrites every line starting with a pipe and keeps every other line.
\<close>

definition spec_in_table :: "bool \<Rightarrow> pystr \<Rightarrow> bool" where
  "spec_in_table in_table line =
     (if startswith (strip line) [pipe] then True
      else if in_table \<and> strip line = [] then False
      else in_table)"

definition spec_map_line :: "pystr \<Rightarrow> pystr" where
  "spec_map_line line =
     (if startswith (strip line) [pipe] then process_table_line line else line)"


section \<open>Files, streams and the exit status\<close>

text \<open>
  \<^verbatim>\<open>process_markdown_file(filename)\<close>, lines 70 to 110, and \<^verbatim>\<open>main\<close>. What the operating
  system answers is a parameter: \<open>read_result\<close> is the outcome of opening the file for
  reading and of \<^verbatim>\<open>readlines\<close>, \<open>write_result\<close> the outcome of opening it for writing and
  of \<^verbatim>\<open>writelines\<close>. What the program does is the list of its events in order.
\<close>

datatype exn =
    FileNotFoundError
  | OtherException pystr    \<comment> \<open>any other \<^verbatim>\<open>Exception\<close>, with its \<^verbatim>\<open>str(e)\<close>\<close>

record os =
  read_result :: "pystr \<Rightarrow> exn + pystr list"
  write_result :: "pystr \<Rightarrow> pystr list \<Rightarrow> pystr option"

datatype event =
    OpenRead pystr              \<comment> \<open>\<^verbatim>\<open>open(filename, 'r')\<close>\<close>
  | OpenWrite pystr             \<comment> \<open>\<^verbatim>\<open>open(filename, 'w')\<close>\<close>
  | WriteLines pystr "pystr list"
  | Stdout pystr
  | Stderr pystr
  | Exit nat                    \<comment> \<open>\<^verbatim>\<open>sys.exit(n)\<close>, or the end of the program with status 0\<close>

definition process_markdown_file :: "os \<Rightarrow> pystr \<Rightarrow> event list" where
  "process_markdown_file sys filename =
     (case read_result sys filename of
        Inl FileNotFoundError \<Rightarrow>
          [OpenRead filename,
           Stderr (lit ''Error: File '' @ [39] @ filename @ [39] @ lit '' not found.'' @ [10]),
           Exit 1]
      | Inl (OtherException e) \<Rightarrow>
          [OpenRead filename,
           Stderr (lit ''Error reading file '' @ [39] @ filename @ [39] @ lit '': '' @ e @ [10]),
           Exit 1]
      | Inr lines \<Rightarrow>
          (let processed_lines = process_lines lines in
           case write_result sys filename processed_lines of
             None \<Rightarrow>
               [OpenRead filename, OpenWrite filename, WriteLines filename processed_lines,
                Stdout (lit ''Successfully processed '' @ [39] @ filename @ [39] @ [10]),
                Exit 0]
           | Some e \<Rightarrow>
               [OpenRead filename, OpenWrite filename,
                Stderr (lit ''Error writing file '' @ [39] @ filename @ [39] @ lit '': '' @ e @ [10]),
                Exit 1]))"

definition main :: "os \<Rightarrow> pystr list \<Rightarrow> event list" where
  \<comment> \<open>\<^verbatim>\<open>main\<close> on \<^verbatim>\<open>sys.argv\<close>\<close>
  "main sys argv =
     (if length argv \<noteq> 2 then
        [Stderr (lit ''Usage: python fix_tables.py <markdown_file>'' @ [10]), Exit 1]
      else process_markdown_file sys (argv ! 1))"









text \<open>The events that open the file for writing or write to it.\<close>

definition is_write_event :: "event \<Rightarrow> bool" where
  "is_write_event ev =
     (case ev of OpenWrite _ \<Rightarrow> True | WriteLines _ _ \<Rightarrow> True | _ \<Rightarrow> False)"


section \<open>Evaluation on literals\<close>

lemmas chars = space_def hash_def backtick_def pipe_def nbsp_def

lemmas py_str_defs =
  lit_def str_replace_def str_find_def slice_to_def slice_from_def index_def



section \<open>Properties of the space rewriter\<close>

lemma str_replace_length: "length (str_replace a b s) = length s"
  by (simp add: str_replace_def)

lemma str_replace_append: "str_replace a b (xs @ ys) = str_replace a b xs @ str_replace a b ys"
  by (simp add: str_replace_def)

lemma str_replace_Cons: "str_replace a b (x # xs) = (if x = a then b else x) # str_replace a b xs"
  by (simp add: str_replace_def)

lemma str_replace_absent: "a \<notin> set s \<Longrightarrow> str_replace a b s = s"
  by (induction s) (auto simp: str_replace_def)

lemma str_replace_removes: "a \<noteq> b \<Longrightarrow> a \<notin> set (str_replace a b s)"
  by (auto simp: str_replace_def)

lemma str_replace_mem:
  "c \<noteq> a \<Longrightarrow> c \<noteq> b \<Longrightarrow> c \<in> set (str_replace a b s) \<longleftrightarrow> c \<in> set s"
  by (auto simp: str_replace_def)

lemma str_find_first: "c \<notin> set b \<Longrightarrow> str_find c (b @ c # r) = int (length b)"
  by (induction b) (auto simp: str_find_def)

lemma first_hash_split:
  assumes "hash \<in> set s"
  obtains b r where "s = b @ hash # r" and "hash \<notin> set b"
  using assms split_list_first by metis

lemma index_before_hash:
  assumes "hash \<in> set s" and "0 < str_find hash s"
  shows "index s (str_find hash s - 1) \<noteq> None"
proof -
  from assms(1) obtain b r where s: "s = b @ hash # r" and b: "hash \<notin> set b"
    by (rule first_hash_split)
  from assms(2) s b have "0 < length b" by (simp add: str_find_first)
  with s b show ?thesis
    by (simp add: str_find_first index_def Let_def)
qed

lemma pcit_no_hash:
  "hash \<notin> set s \<Longrightarrow> process_code_in_table s = str_replace space nbsp s"
  by (simp add: process_code_in_table_def)

lemma pcit_space_hash:
  assumes "hash \<notin> set b"
  shows "process_code_in_table (b @ space # hash # r) =
         str_replace space nbsp b @ space # str_replace space nbsp (hash # r)"
proof -
  have f: "str_find hash (b @ space # hash # r) = int (Suc (length b))"
    using str_find_first [of hash "b @ [space]" r] assms by (simp add: chars)
  have n: "nat (1 + int (length b)) = Suc (length b)" by simp
  show ?thesis
    by (simp add: process_code_in_table_def f n Let_def index_def slice_to_def slice_from_def
        nth_append)
qed

lemma pcit_bare_hash:
  assumes "hash \<notin> set b" and "b = [] \<or> last b \<noteq> space"
  shows "process_code_in_table (b @ hash # r) =
         str_replace space nbsp b @ str_replace space nbsp (hash # r)"
proof -
  have f: "str_find hash (b @ hash # r) = int (length b)"
    using assms(1) by (rule str_find_first)
  have "\<not> (0 < int (length b) \<and> index (b @ hash # r) (int (length b) - 1) = Some space)"
  proof (cases "b = []")
    case True then show ?thesis by simp
  next
    case False
    with assms(2) have "last b \<noteq> space" by simp
    moreover from False have "index (b @ hash # r) (int (length b) - 1) = Some (last b)"
      by (simp add: index_def Let_def nth_append last_conv_nth nat_diff_distrib')
    ultimately show ?thesis by simp
  qed
  then show ?thesis
    by (auto simp: process_code_in_table_def f Let_def slice_to_def slice_from_def)
qed

lemma kept_str_replace: "list_all2 kept s (str_replace space nbsp s)"
  by (induction s) (simp_all add: str_replace_def kept_def)

lemma kept_pcit: "list_all2 kept s (process_code_in_table s)"
proof (cases "hash \<in> set s")
  case False
  then show ?thesis by (simp add: pcit_no_hash kept_str_replace)
next
  case True
  then obtain b r where s: "s = b @ hash # r" and b: "hash \<notin> set b"
    by (rule first_hash_split)
  show ?thesis
  proof (cases "b = [] \<or> last b \<noteq> space")
    case True
    with b have "process_code_in_table s =
        str_replace space nbsp b @ str_replace space nbsp (hash # r)"
      unfolding s by (rule pcit_bare_hash)
    then show ?thesis
      unfolding s by (simp add: list_all2_appendI kept_str_replace)
  next
    case False
    then obtain b' where b': "b = b' @ [space]"
      by (metis append_butlast_last_id)
    with b have "hash \<notin> set b'" by simp
    then have "process_code_in_table (b' @ space # hash # r) =
        str_replace space nbsp b' @ space # str_replace space nbsp (hash # r)"
      by (rule pcit_space_hash)
    moreover have "list_all2 kept (b' @ space # hash # r)
        (str_replace space nbsp b' @ space # str_replace space nbsp (hash # r))"
      by (intro list_all2_appendI list_all2_Cons[THEN iffD2] conjI kept_str_replace)
         (simp add: kept_def)
    ultimately show ?thesis
      unfolding s b' by simp
  qed
qed

text \<open>
  Claim C1. The three branches of the rewriter. Without a \<^verbatim>\<open>#\<close> every space becomes
  U+00A0. With the first \<^verbatim>\<open>#\<close> at index \<open>hash_pos\<close>: when \<open>hash_pos > 0\<close> and the
  character before it is a space, the result is \<^verbatim>\<open>content[0:hash_pos-1]\<close> with its spaces
  replaced, one ordinary space, and \<^verbatim>\<open>content[hash_pos:]\<close> with its spaces replaced;
  otherwise it is \<^verbatim>\<open>content[0:hash_pos]\<close> and \<^verbatim>\<open>content[hash_pos:]\<close>, each with its
  spaces replaced, with nothing put between them.
\<close>

theorem pcit_three_branches:
  "(hash \<notin> set s \<longrightarrow> process_code_in_table s = str_replace space nbsp s) \<and>
   (hash_pos < length s \<and> s ! hash_pos = hash \<and> hash \<notin> set (take hash_pos s) \<longrightarrow>
      (if 0 < hash_pos \<and> s ! (hash_pos - 1) = space
       then process_code_in_table s =
              str_replace space nbsp (take (hash_pos - 1) s) @ [space] @
              str_replace space nbsp (drop hash_pos s)
       else process_code_in_table s =
              str_replace space nbsp (take hash_pos s) @
              str_replace space nbsp (drop hash_pos s)))"
proof (intro conjI impI)
  assume "hash \<notin> set s"
  then show "process_code_in_table s = str_replace space nbsp s"
    by (rule pcit_no_hash)
next
  assume a: "hash_pos < length s \<and> s ! hash_pos = hash \<and> hash \<notin> set (take hash_pos s)"
  define b where "b = take hash_pos s"
  define r where "r = drop (Suc hash_pos) s"
  from a have s: "s = b @ hash # r"
    unfolding b_def r_def by (metis id_take_nth_drop)
  from a have b: "hash \<notin> set b" and lb: "length b = hash_pos"
    by (simp_all add: b_def)
  have d: "drop hash_pos s = hash # r"
    using lb by (simp add: s)
  show "if 0 < hash_pos \<and> s ! (hash_pos - 1) = space
       then process_code_in_table s =
              str_replace space nbsp (take (hash_pos - 1) s) @ [space] @
              str_replace space nbsp (drop hash_pos s)
       else process_code_in_table s =
              str_replace space nbsp (take hash_pos s) @
              str_replace space nbsp (drop hash_pos s)"
  proof (cases "0 < hash_pos \<and> s ! (hash_pos - 1) = space")
    case True
    then have "b \<noteq> []" and "last b = space"
      using lb by (auto simp: s nth_append last_conv_nth)
    then have bb: "b = butlast b @ [space]"
      by (metis append_butlast_last_id)
    have tk: "take (hash_pos - Suc 0) s = butlast b"
      using lb by (simp add: s butlast_conv_take)
    from b have "hash \<notin> set (butlast b)"
      by (meson in_set_butlastD)
    then have "process_code_in_table (butlast b @ space # hash # r) =
        str_replace space nbsp (butlast b) @ space # str_replace space nbsp (hash # r)"
      by (rule pcit_space_hash)
    moreover have "s = butlast b @ space # hash # r"
      using bb s by (metis append.assoc append_Cons append_Nil)
    ultimately have "process_code_in_table s =
        str_replace space nbsp (butlast b) @ space # str_replace space nbsp (hash # r)"
      by metis
    then show ?thesis
      using True by (simp add: tk d)
  next
    case False
    then have "b = [] \<or> last b \<noteq> space"
      using lb by (auto simp: s nth_append last_conv_nth)
    with b have "process_code_in_table (b @ hash # r) =
        str_replace space nbsp b @ str_replace space nbsp (hash # r)"
      by (rule pcit_bare_hash)
    then have "process_code_in_table s =
        str_replace space nbsp (take hash_pos s) @ str_replace space nbsp (drop hash_pos s)"
      unfolding d s [symmetric] by (simp only: b_def)
    with False show ?thesis
      by (simp only: if_False)
  qed
qed

theorem pcit_three_branches_witness:
  "process_code_in_table (lit ''x = 1'') = lit ''x'' @ [nbsp] @ lit ''='' @ [nbsp] @ lit ''1'' \<and>
   process_code_in_table (lit ''a b # c d'') =
     lit ''a'' @ [nbsp] @ lit ''b'' @ [space] @ lit ''#'' @ [nbsp] @ lit ''c'' @ [nbsp] @ lit ''d'' \<and>
   process_code_in_table (lit ''a b# c d'') =
     lit ''a'' @ [nbsp] @ lit ''b#'' @ [nbsp] @ lit ''c'' @ [nbsp] @ lit ''d'' \<and>
   process_code_in_table (lit ''# c'') = lit ''#'' @ [nbsp] @ lit ''c''"
  using pcit_three_branches [of "lit ''x = 1''" 0]
        pcit_three_branches [of "lit ''a b # c d''" 4]
        pcit_three_branches [of "lit ''a b# c d''" 3]
        pcit_three_branches [of "lit ''# c''" 0]
  by (simp add: lit_def str_replace_def chars)

text \<open>
  Claim C2. On \<^verbatim>\<open>"foo bar # baz"\<close> the space at index 7, the one before the \<^verbatim>\<open>#\<close>,
  stays 0x20, the other two spaces (indices 3 and 9) become 0xA0, and the result holds
  exactly one ordinary space.
\<close>

theorem pcit_foo_bar_baz:
  "process_code_in_table (lit ''foo bar # baz'') =
     lit ''foo'' @ [nbsp] @ lit ''bar'' @ [space] @ lit ''#'' @ [nbsp] @ lit ''baz'' \<and>
   lit ''foo bar # baz'' ! 7 = space \<and> lit ''foo bar # baz'' ! 8 = hash \<and>
   process_code_in_table (lit ''foo bar # baz'') ! 7 = 0x20 \<and>
   process_code_in_table (lit ''foo bar # baz'') ! 3 = 0xA0 \<and>
   process_code_in_table (lit ''foo bar # baz'') ! 9 = 0xA0 \<and>
   [i \<leftarrow> [0 ..< 13]. lit ''foo bar # baz'' ! i = space] = [3, 7, 9] \<and>
   count_list (process_code_in_table (lit ''foo bar # baz'')) space = 1"
  by (simp add: process_code_in_table_def py_str_defs chars upt_rec)

text \<open>
  Claim C3, as stated: on \<^verbatim>\<open>"a # b # c"\<close> the result would be the string with U+00A0 at
  every space, also before the first \<^verbatim>\<open>#\<close>. The rewriter does not return that string.
\<close>

theorem pcit_two_hashes_counterexample:
  "process_code_in_table (lit ''a # b # c'') \<noteq>
     lit ''a'' @ [nbsp] @ lit ''#'' @ [nbsp] @ lit ''b'' @ [nbsp] @ lit ''#'' @ [nbsp] @ lit ''c''"
  by (simp add: process_code_in_table_def py_str_defs chars)

text \<open>
  Claim C3, amended: on \<^verbatim>\<open>"a # b # c"\<close> the first \<^verbatim>\<open>#\<close> (index 2) is the boundary; the
  space before it stays an ordinary space, the only one of the result, and the three other
  spaces become U+00A0.
\<close>

theorem pcit_two_hashes:
  "process_code_in_table (lit ''a # b # c'') =
     lit ''a'' @ [space] @ lit ''#'' @ [nbsp] @ lit ''b'' @ [nbsp] @ lit ''#'' @ [nbsp] @ lit ''c'' \<and>
   str_find hash (lit ''a # b # c'') = 2 \<and>
   count_list (process_code_in_table (lit ''a # b # c'')) space = 1"
  by (simp add: process_code_in_table_def py_str_defs chars)

text \<open>
  Claim C10. The rewriter keeps the length; a position that does not hold a space keeps
  its character, and a position that holds a space holds a space or U+00A0 afterwards.
\<close>

theorem pcit_positions:
  "length (process_code_in_table s) = length s \<and>
   (\<forall>i < length s.
      if s ! i = space
      then process_code_in_table s ! i = space \<or> process_code_in_table s ! i = nbsp
      else process_code_in_table s ! i = s ! i)"
  using kept_pcit [of s] by (simp add: list_all2_conv_all_nth kept_def)

theorem pcit_positions_witness:
  "length (process_code_in_table (lit ''a b #'')) = 5 \<and>
   process_code_in_table (lit ''a b #'') ! 0 = 97 \<and>
   (process_code_in_table (lit ''a b #'') ! 1 = space \<or>
    process_code_in_table (lit ''a b #'') ! 1 = nbsp) \<and>
   (process_code_in_table (lit ''a b #'') ! 3 = space \<or>
    process_code_in_table (lit ''a b #'') ! 3 = nbsp) \<and>
   process_code_in_table (lit ''a b #'') ! 4 = hash"
  using pcit_positions [of "lit ''a b #''"]
  by (simp add: lit_def chars All_less_Suc2 numeral_eq_Suc)


section \<open>Properties of the scan\<close>

lemma match_here_Some_iff:
  "match_here s = Some (content, after) \<longleftrightarrow>
   s = backtick # content @ backtick # after \<and> content \<noteq> [] \<and> backtick \<notin> set content"
proof
  assume m: "match_here s = Some (content, after)"
  then obtain rest where s: "s = backtick # rest"
    by (auto simp: match_here_def split: list.splits if_splits)
  let ?P = "\<lambda>x. x \<noteq> backtick"
  from m s have c: "content = takeWhile ?P rest" and ne: "content \<noteq> []"
    by (auto simp: match_here_def Let_def split: list.splits if_splits)
  from m s obtain x where d: "dropWhile ?P rest = x # after"
    by (auto simp: match_here_def Let_def split: list.splits if_splits)
  have "\<not> ?P (hd (dropWhile ?P rest))"
    by (rule hd_dropWhile) (simp add: d)
  with d have x: "x = backtick" by simp
  have "rest = takeWhile ?P rest @ dropWhile ?P rest" by simp
  with c d x have "rest = content @ backtick # after" by simp
  moreover have "backtick \<notin> set content"
    unfolding c by (auto dest: set_takeWhileD)
  ultimately show "s = backtick # content @ backtick # after \<and> content \<noteq> [] \<and>
      backtick \<notin> set content"
    using s ne by simp
next
  assume a: "s = backtick # content @ backtick # after \<and> content \<noteq> [] \<and>
      backtick \<notin> set content"
  let ?P = "\<lambda>x. x \<noteq> backtick"
  from a have all: "\<forall>x \<in> set content. ?P x" by auto
  then have "takeWhile ?P (content @ backtick # after) = content"
    and "dropWhile ?P (content @ backtick # after) = backtick # after"
    by (simp_all add: takeWhile_append2 dropWhile_append2)
  with a show "match_here s = Some (content, after)"
    by (simp add: match_here_def Let_def)
qed

lemma dropWhile_Cons_backtick:
  assumes "dropWhile (\<lambda>x. x \<noteq> b) rest = y # ys"
  shows "y = b \<and> b \<in> set rest"
proof -
  have "\<not> (hd (dropWhile (\<lambda>x. x \<noteq> b) rest) \<noteq> b)"
    by (rule hd_dropWhile) (simp add: assms)
  then have y: "y = b" by (simp add: assms)
  have "y \<in> set (dropWhile (\<lambda>x. x \<noteq> b) rest)" by (simp add: assms)
  then have "y \<in> set rest" by (rule set_dropWhileD)
  with y show ?thesis by simp
qed

lemma match_here_None_iff:
  "match_here (c # rest) = None \<longleftrightarrow>
   c \<noteq> backtick \<or> takeWhile (\<lambda>x. x \<noteq> backtick) rest = [] \<or> backtick \<notin> set rest"
  by (auto simp: match_here_def Let_def split: list.splits dest: dropWhile_Cons_backtick)

lemma scan_induct [case_names Nil Match Copy]:
  assumes nil: "P []"
    and match: "\<And>content after. content \<noteq> [] \<Longrightarrow> backtick \<notin> set content \<Longrightarrow> P after \<Longrightarrow>
           P (backtick # content @ backtick # after)"
    and copy: "\<And>c rest. match_here (c # rest) = None \<Longrightarrow> P rest \<Longrightarrow> P (c # rest)"
  shows "P l"
proof (induction l rule: length_induct)
  case (1 l)
  show ?case
  proof (cases l)
    case Nil
    with nil show ?thesis by simp
  next
    case (Cons c rest)
    show ?thesis
    proof (cases "match_here (c # rest)")
      case None
      moreover from 1 Cons have "P rest" by simp
      ultimately show ?thesis unfolding Cons by (rule copy)
    next
      case (Some m)
      obtain content after where m: "m = (content, after)" by (cases m)
      with Some have s: "c # rest = backtick # content @ backtick # after"
        and ne: "content \<noteq> []" and nb: "backtick \<notin> set content"
        by (simp_all add: match_here_Some_iff)
      from s Cons have "length after < length l" by (metis length_Cons length_append
            add_Suc_right less_Suc_eq trans_less_add2 lessI)
      with 1 have "P after" by simp
      with ne nb show ?thesis unfolding Cons s by (rule match)
    qed
  qed
qed

lemma re_sub_match:
  "content \<noteq> [] \<Longrightarrow> backtick \<notin> set content \<Longrightarrow>
   re_sub repl (backtick # content @ backtick # after) = repl content @ re_sub repl after"
proof -
  assume "content \<noteq> []" and "backtick \<notin> set content"
  then have "match_here (backtick # content @ backtick # after) = Some (content, after)"
    by (simp add: match_here_Some_iff)
  then show ?thesis by simp
qed

lemma re_sub_copy:
  "match_here (c # rest) = None \<Longrightarrow> re_sub repl (c # rest) = c # re_sub repl rest"
  by simp

declare re_sub.simps(2) [simp del]

lemma re_sub_other: "c \<noteq> backtick \<Longrightarrow> re_sub repl (c # rest) = c # re_sub repl rest"
  by (simp add: re_sub_copy match_here_None_iff)

lemma re_sub_prefix: "backtick \<notin> set pre \<Longrightarrow> re_sub repl (pre @ s) = pre @ re_sub repl s"
  by (induction pre) (simp_all add: re_sub_other)

lemma re_sub_no_backtick: "backtick \<notin> set s \<Longrightarrow> re_sub repl s = s"
  using re_sub_prefix [of s repl "[]"] by simp

lemma re_sub_adjacent:
  "re_sub repl (backtick # backtick # rest) = backtick # re_sub repl (backtick # rest)"
  by (simp add: re_sub_copy match_here_None_iff)

lemma re_sub_unterminated:
  "backtick \<notin> set rest \<Longrightarrow> re_sub repl (backtick # rest) = backtick # rest"
  by (simp add: re_sub_copy match_here_None_iff re_sub_no_backtick)

lemma ptl_match:
  "content \<noteq> [] \<Longrightarrow> backtick \<notin> set content \<Longrightarrow>
   process_table_line (backtick # content @ backtick # after) =
     backtick # process_code_in_table content @ backtick # process_table_line after"
  by (simp add: process_table_line_def re_sub_match replace_code_def)

lemma ptl_copy:
  "match_here (c # rest) = None \<Longrightarrow>
   process_table_line (c # rest) = c # process_table_line rest"
  by (simp add: process_table_line_def re_sub_copy)

lemma ptl_Nil: "process_table_line [] = []"
  by (simp add: process_table_line_def)

section \<open>The rewriter applied twice, and what it keeps\<close>

lemma codepoints_distinct:
  "hash \<noteq> space" "hash \<noteq> nbsp" "backtick \<noteq> space" "backtick \<noteq> nbsp"
  "space \<noteq> nbsp" "pipe \<noteq> backtick"
  by (simp_all add: chars)

lemma first_split_unique:
  "b \<notin> set xs \<Longrightarrow> b \<notin> set ys \<Longrightarrow> xs @ b # r = ys @ b # r' \<Longrightarrow> xs = ys \<and> r = r'"
proof (induction xs arbitrary: ys)
  case Nil
  then show ?case by (cases ys) auto
next
  case (Cons x xs)
  then show ?case by (cases ys) auto
qed

lemma str_replace_idem: "str_replace space nbsp (str_replace space nbsp s) = str_replace space nbsp s"
  by (simp add: str_replace_def codepoints_distinct)

lemma hash_str_replace: "hash \<in> set (str_replace space nbsp s) \<longleftrightarrow> hash \<in> set s"
  by (rule str_replace_mem) (simp_all add: codepoints_distinct)

lemma no_space_str_replace: "space \<notin> set (str_replace space nbsp s)"
  by (rule str_replace_removes) (simp add: codepoints_distinct)

lemma pcit_idem: "process_code_in_table (process_code_in_table s) = process_code_in_table s"
proof (cases "hash \<in> set s")
  case False
  then show ?thesis
    by (simp add: pcit_no_hash hash_str_replace str_replace_idem)
next
  case True
  then obtain b r where s: "s = b @ hash # r" and b: "hash \<notin> set b"
    by (rule first_hash_split)
  let ?R = "str_replace space nbsp"
  have hr: "?R (hash # r) = hash # ?R r"
    by (simp add: str_replace_Cons codepoints_distinct)
  have hrr: "?R (hash # ?R r) = hash # ?R r"
    by (simp add: str_replace_Cons str_replace_idem codepoints_distinct)
  show ?thesis
  proof (cases "b = [] \<or> last b \<noteq> space")
    case True
    with b have e: "process_code_in_table s = ?R b @ hash # ?R r"
      unfolding s by (simp add: pcit_bare_hash hr)
    have "hash \<notin> set (?R b)" using b by (simp add: hash_str_replace)
    moreover have "?R b = [] \<or> last (?R b) \<noteq> space"
      using no_space_str_replace [of b] last_in_set [of "?R b"] by metis
    ultimately have "process_code_in_table (?R b @ hash # ?R r) = ?R (?R b) @ ?R (hash # ?R r)"
      by (rule pcit_bare_hash)
    then show ?thesis
      by (simp add: e str_replace_idem hrr)
  next
    case False
    then obtain b' where b': "b = b' @ [space]"
      by (metis append_butlast_last_id)
    with b have nb: "hash \<notin> set b'" by simp
    then have e: "process_code_in_table s = ?R b' @ space # hash # ?R r"
      unfolding s b' by (simp add: pcit_space_hash hr)
    have "hash \<notin> set (?R b')" using nb by (simp add: hash_str_replace)
    then have "process_code_in_table (?R b' @ space # hash # ?R r) =
        ?R (?R b') @ space # ?R (hash # ?R r)"
      by (rule pcit_space_hash)
    then show ?thesis
      by (simp add: e str_replace_idem hrr)
  qed
qed

lemma pcit_length: "length (process_code_in_table s) = length s"
  using kept_pcit [of s] by (simp add: list_all2_lengthD)

lemma kept_backtick: "kept a b \<Longrightarrow> (b = backtick) = (a = backtick)"
  by (auto simp: kept_def chars split: if_splits)

lemma kept_backticks:
  "list_all2 kept s t \<Longrightarrow> map (\<lambda>x. x = backtick) t = map (\<lambda>x. x = backtick) s"
  by (induction rule: list_all2_induct) (simp_all add: kept_backtick)

lemma pcit_backticks:
  "map (\<lambda>x. x = backtick) (process_code_in_table s) = map (\<lambda>x. x = backtick) s"
  using kept_pcit by (rule kept_backticks)

lemma same_marks_mem:
  assumes "map (\<lambda>x. x = b) t = map (\<lambda>x. x = b) s"
  shows "b \<in> set t \<longleftrightarrow> b \<in> set s"
proof -
  have "b \<in> set u \<longleftrightarrow> True \<in> set (map (\<lambda>x. x = b) u)" for u :: "'a list"
    by auto
  with assms show ?thesis by metis
qed

lemma same_marks_takeWhile:
  assumes "map (\<lambda>x. x = b) t = map (\<lambda>x. x = b) s"
  shows "takeWhile (\<lambda>x. x \<noteq> b) t = [] \<longleftrightarrow> takeWhile (\<lambda>x. x \<noteq> b) s = []"
  using assms by (cases s; cases t) auto

lemma pcit_no_backtick: "backtick \<in> set (process_code_in_table s) \<longleftrightarrow> backtick \<in> set s"
  using pcit_backticks by (rule same_marks_mem)

lemma pcit_nonempty: "process_code_in_table s = [] \<longleftrightarrow> s = []"
  using pcit_length [of s] by (metis length_0_conv)

section \<open>The table line: length, backticks, idempotence\<close>

lemma ptl_no_backtick: "backtick \<notin> set s \<Longrightarrow> process_table_line s = s"
  by (simp add: process_table_line_def re_sub_no_backtick)

lemma ptl_unterminated:
  "backtick \<notin> set rest \<Longrightarrow> process_table_line (backtick # rest) = backtick # rest"
  by (simp add: process_table_line_def re_sub_unterminated)

lemma ptl_prefix:
  "backtick \<notin> set pre \<Longrightarrow> process_table_line (pre @ s) = pre @ process_table_line s"
  by (simp add: process_table_line_def re_sub_prefix)

lemma ptl_length: "length (process_table_line l) = length l"
  by (induction l rule: scan_induct) (simp_all add: ptl_Nil ptl_match ptl_copy pcit_length)

lemma ptl_backticks:
  "map (\<lambda>x. x = backtick) (process_table_line l) = map (\<lambda>x. x = backtick) l"
  by (induction l rule: scan_induct) (simp_all add: ptl_Nil ptl_match ptl_copy pcit_backticks)

lemma match_here_None_ptl:
  assumes "match_here (c # rest) = None"
  shows "match_here (c # process_table_line rest) = None"
  using assms same_marks_mem [OF ptl_backticks, of rest]
    same_marks_takeWhile [OF ptl_backticks, of rest]
  by (simp add: match_here_None_iff)

lemma ptl_idem: "process_table_line (process_table_line l) = process_table_line l"
proof (induction l rule: scan_induct)
  case Nil
  show ?case by (simp add: ptl_Nil)
next
  case (Match content after)
  then have "process_table_line (backtick # content @ backtick # after) =
      backtick # process_code_in_table content @ backtick # process_table_line after"
    by (simp add: ptl_match)
  moreover have "process_table_line
      (backtick # process_code_in_table content @ backtick # process_table_line after) =
      backtick # process_code_in_table (process_code_in_table content) @
      backtick # process_table_line (process_table_line after)"
    using Match by (intro ptl_match) (simp_all add: pcit_nonempty pcit_no_backtick)
  ultimately show ?case
    using Match by (simp add: pcit_idem)
next
  case (Copy c rest)
  then show ?case
    by (simp add: ptl_copy match_here_None_ptl)
qed

section \<open>The table line: what lies outside the spans\<close>

lemma span_mask_match:
  "content \<noteq> [] \<Longrightarrow> backtick \<notin> set content \<Longrightarrow>
   span_mask (backtick # content @ backtick # after) =
     False # replicate (length content) True @ False # span_mask after"
proof -
  assume "content \<noteq> []" and "backtick \<notin> set content"
  then have "match_here (backtick # content @ backtick # after) = Some (content, after)"
    by (simp add: match_here_Some_iff)
  then show ?thesis by simp
qed

lemma span_mask_copy:
  "match_here (c # rest) = None \<Longrightarrow> span_mask (c # rest) = False # span_mask rest"
  by simp

declare span_mask.simps(2) [simp del]

lemma span_mask_length: "length (span_mask l) = length l"
  by (induction l rule: scan_induct) (simp_all add: span_mask_match span_mask_copy)

lemma outside_inside:
  "length t = length s \<Longrightarrow> list_all2 outside_same (zip (replicate (length s) True) s) t"
  by (induction s arbitrary: t) (auto simp: outside_same_def list_all2_Cons1 length_Suc_conv)

lemma ptl_outside: "list_all2 outside_same (zip (span_mask l) l) (process_table_line l)"
proof (induction l rule: scan_induct)
  case Nil
  show ?case by (simp add: ptl_Nil)
next
  case (Match content after)
  have "list_all2 outside_same (zip (replicate (length content) True) content)
      (process_code_in_table content)"
    by (rule outside_inside) (rule pcit_length)
  moreover have "outside_same (False, backtick) backtick"
    by (simp add: outside_same_def)
  ultimately show ?case
    using Match by (simp add: ptl_match span_mask_match list_all2_appendI)
next
  case (Copy c rest)
  then show ?case
    by (simp add: ptl_copy span_mask_copy outside_same_def)
qed

lemma span_mask_backtick:
  "list_all2 (\<lambda>m c. \<not> (m \<and> c = backtick)) (span_mask l) l"
proof (induction l rule: scan_induct)
  case Nil
  show ?case by simp
next
  case (Match content after)
  have "list_all2 (\<lambda>m c. \<not> (m \<and> c = backtick)) (replicate (length content) True) content"
    using Match(2) by (induction content) auto
  with Match show ?case
    by (simp add: span_mask_match list_all2_appendI)
next
  case (Copy c rest)
  then show ?case by (simp add: span_mask_copy)
qed

lemma ptl_after_last_backtick:
  "backtick \<notin> set rest \<Longrightarrow>
   \<exists>out. process_table_line (pre @ backtick # rest) = out @ backtick # rest \<and>
         length out = length pre"
proof (induction pre rule: length_induct)
  case (1 pre)
  note nb = \<open>backtick \<notin> set rest\<close>
  show ?case
  proof (cases pre)
    case Nil
    with nb show ?thesis
      by (simp add: ptl_unterminated)
  next
    case (Cons c p)
    show ?thesis
    proof (cases "match_here (c # p @ backtick # rest)")
      case None
      from 1 Cons nb obtain out where
        "process_table_line (p @ backtick # rest) = out @ backtick # rest" "length out = length p"
        by (metis length_Cons lessI)
      with None Cons show ?thesis
        by (intro exI [of _ "c # out"]) (simp add: ptl_copy)
    next
      case (Some m)
      obtain content after where m: "m = (content, after)" by (cases m)
      with Some have eq: "c # p @ backtick # rest = backtick # content @ backtick # after"
        and ne: "content \<noteq> []" and nc: "backtick \<notin> set content"
        by (simp_all add: match_here_Some_iff)
      from eq have c: "c = backtick" and pe: "p @ backtick # rest = content @ backtick # after"
        by simp_all
      show ?thesis
      proof (cases "backtick \<in> set p")
        case False
        with pe nc have "p = content \<and> rest = after"
          by (intro first_split_unique)
        with ne nc nb show ?thesis
          unfolding Cons c
          by (intro exI [of _ "backtick # process_code_in_table content"])
             (simp add: ptl_match pcit_length ptl_no_backtick)
      next
        case True
        then obtain p1 p2 where p: "p = p1 @ backtick # p2" and p1: "backtick \<notin> set p1"
          using split_list_first by metis
        with pe nc have "p1 = content \<and> p2 @ backtick # rest = after"
          by (intro first_split_unique) simp_all
        then have p1c: "p1 = content" and af: "after = p2 @ backtick # rest" by simp_all
        have "length p2 < length pre" unfolding Cons p by simp
        with 1 nb obtain out where
          o: "process_table_line (p2 @ backtick # rest) = out @ backtick # rest"
            "length out = length p2"
          by metis
        have "process_table_line (pre @ backtick # rest) =
            backtick # process_code_in_table content @ backtick # process_table_line after"
          unfolding Cons c p p1c af using ne nc ptl_match [of content "p2 @ backtick # rest"]
          by simp
        with o show ?thesis
          unfolding Cons p p1c af
          by (intro exI [of _ "backtick # process_code_in_table content @ backtick # out"])
             (simp add: pcit_length)
      qed
    qed
  qed
qed


section \<open>Properties of the line loop\<close>

lemma line_loop_run:
  "line_loop (in_table, processed) lines =
     (foldl spec_in_table in_table lines, processed @ map spec_map_line lines)"
  unfolding line_loop_def
  by (induction lines arbitrary: in_table processed)
     (simp_all add: spec_in_table_def spec_map_line_def is_table_line_def)

lemma process_lines_map: "process_lines lines = map spec_map_line lines"
  by (simp add: process_lines_def line_loop_run)

lemma not_isspace_backtick: "\<not> isspace backtick"
  by (simp add: isspace_def strip_chars_def backtick_def)

lemma strip_Nil:
  assumes "dropWhile isspace l = []"
  shows "strip l = []"
  unfolding strip_def assms by simp

lemma strip_Cons:
  assumes "dropWhile isspace l = c # r"
  shows "\<exists>t. strip l = c # t"
proof -
  have "\<not> isspace (hd (dropWhile isspace l))"
    by (rule hd_dropWhile) (simp add: assms)
  then have c: "\<not> isspace c" by (simp add: assms)
  have "\<exists>ys. dropWhile isspace (rev r @ [c]) = ys @ [c]"
    using c by (simp add: dropWhile_append)
  then obtain ys where "dropWhile isspace (rev (c # r)) = ys @ [c]" by auto
  then show ?thesis
    by (simp add: strip_def assms)
qed

lemma is_table_line_iff: "is_table_line l \<longleftrightarrow> (\<exists>r. dropWhile isspace l = pipe # r)"
proof (cases "dropWhile isspace l")
  case Nil
  then have "strip l = []" by (rule strip_Nil)
  then have "\<not> is_table_line l"
    by (simp add: is_table_line_def startswith_def)
  moreover have "\<not> (\<exists>r. dropWhile isspace l = pipe # r)"
    unfolding Nil by simp
  ultimately show ?thesis by blast
next
  case (Cons c r)
  then obtain t where "strip l = c # t"
    using strip_Cons by blast
  with Cons show ?thesis
    by (simp add: is_table_line_def startswith_def)
qed

lemma is_table_line_ptl:
  assumes "is_table_line l"
  shows "is_table_line (process_table_line l)"
proof -
  from assms obtain r where d: "dropWhile isspace l = pipe # r"
    by (auto simp: is_table_line_iff)
  define ws where "ws = takeWhile isspace l"
  have l: "l = ws @ pipe # r"
    unfolding ws_def d [symmetric] by simp
  have ws: "\<forall>c \<in> set ws. isspace c"
    unfolding ws_def by (auto dest: set_takeWhileD)
  then have "backtick \<notin> set ws"
    using not_isspace_backtick by blast
  then have "process_table_line l = ws @ pipe # process_table_line r"
    unfolding l by (simp add: ptl_prefix ptl_copy match_here_None_iff codepoints_distinct)
  moreover have "\<not> isspace pipe"
    by (simp add: isspace_def strip_chars_def pipe_def)
  ultimately have "dropWhile isspace (process_table_line l) = pipe # process_table_line r"
    using ws by (simp add: dropWhile_append2)
  then show ?thesis
    by (simp add: is_table_line_iff)
qed

lemma spec_map_line_idem: "spec_map_line (spec_map_line l) = spec_map_line l"
  using is_table_line_ptl [of l]
  by (simp add: spec_map_line_def is_table_line_def ptl_idem)


section \<open>The claims on lines, files and the loop\<close>

text \<open>
  Claim C4. The transformation is idempotent: rewriting a line that has been rewritten
  changes nothing, and so the whole list of lines, processed twice, is the list processed
  once.
\<close>

theorem normalizer_idempotent:
  "process_table_line (process_table_line line) = process_table_line line \<and>
   process_lines (process_lines lines) = process_lines lines"
  by (simp add: ptl_idem process_lines_map spec_map_line_idem)

text \<open>
  Claim C5, as stated: the extractor would match a pair of backticks around zero or more
  characters, so two adjacent backticks would be a span. The pattern of the source does not
  match two adjacent backticks; on a line that starts with two backticks, the text
  \<^verbatim>\<open>a b\<close> and a third backtick, the scan resumes at the second backtick and rewrites
  \<^verbatim>\<open>a b\<close>, which the extractor of the specification leaves alone.
\<close>

theorem empty_span_counterexample:
  "match_here [backtick, backtick] = None \<and>
   spec_match_here [backtick, backtick] = Some ([], []) \<and>
   process_table_line ([backtick, backtick] @ lit ''a b'' @ [backtick]) =
     [backtick, backtick] @ lit ''a'' @ [nbsp] @ lit ''b'' @ [backtick] \<and>
   spec_re_sub replace_code ([backtick, backtick] @ lit ''a b'' @ [backtick]) =
     [backtick, backtick] @ lit ''a b'' @ [backtick]"
  by (simp add: match_here_def spec_match_here_def process_table_line_def re_sub.simps
      replace_code_def process_code_in_table_def py_str_defs chars)

text \<open>
  Claim C5, amended: the extractor matches, from left to right and without nesting, every
  backtick followed by one or more characters other than a backtick and a closing backtick,
  rewrites the content and goes on after the closing backtick. Two adjacent backticks are
  not a span: the first one is copied and the scan goes on at the second. A backtick with
  no later backtick is copied with the text after it.
\<close>

theorem span_extractor:
  "(match_here s = Some (content, after) \<longleftrightarrow>
      s = backtick # content @ backtick # after \<and> content \<noteq> [] \<and> backtick \<notin> set content) \<and>
   (backtick \<notin> set pre \<and> content \<noteq> [] \<and> backtick \<notin> set content \<longrightarrow>
      process_table_line (pre @ backtick # content @ backtick # rest) =
        pre @ backtick # process_code_in_table content @ backtick # process_table_line rest) \<and>
   (backtick \<notin> set pre \<longrightarrow>
      process_table_line (pre @ backtick # backtick # rest) =
        pre @ backtick # process_table_line (backtick # rest)) \<and>
   (backtick \<notin> set pre \<and> backtick \<notin> set rest \<longrightarrow>
      process_table_line (pre @ backtick # rest) = pre @ backtick # rest)"
proof (intro conjI impI)
  show "match_here s = Some (content, after) \<longleftrightarrow>
      s = backtick # content @ backtick # after \<and> content \<noteq> [] \<and> backtick \<notin> set content"
    by (rule match_here_Some_iff)
next
  assume "backtick \<notin> set pre \<and> content \<noteq> [] \<and> backtick \<notin> set content"
  then show "process_table_line (pre @ backtick # content @ backtick # rest) =
        pre @ backtick # process_code_in_table content @ backtick # process_table_line rest"
    by (simp add: ptl_prefix ptl_match)
next
  assume "backtick \<notin> set pre"
  then show "process_table_line (pre @ backtick # backtick # rest) =
        pre @ backtick # process_table_line (backtick # rest)"
    by (simp add: ptl_prefix ptl_copy match_here_None_iff)
next
  assume "backtick \<notin> set pre \<and> backtick \<notin> set rest"
  then show "process_table_line (pre @ backtick # rest) = pre @ backtick # rest"
    by (simp add: ptl_prefix ptl_unterminated)
qed

theorem span_extractor_witness:
  "match_here (backtick # lit ''a b'' @ backtick # lit ''c'') = Some (lit ''a b'', lit ''c'') \<and>
   process_table_line (lit ''| '' @ backtick # lit ''a b'' @ backtick # lit '' |'') =
     lit ''| '' @ backtick # lit ''a'' @ [nbsp] @ lit ''b'' @ backtick # lit '' |'' \<and>
   process_table_line (lit ''| '' @ backtick # backtick # lit ''a b'' @ [backtick]) =
     lit ''| '' @ backtick # backtick # lit ''a'' @ [nbsp] @ lit ''b'' @ [backtick] \<and>
   process_table_line (lit ''| '' @ backtick # lit ''a b'') = lit ''| '' @ backtick # lit ''a b''"
  using span_extractor [of "backtick # lit ''a b'' @ backtick # lit ''c''" "lit ''a b''"
      "lit ''c''" "lit ''| ''" "lit '' |''"]
    span_extractor [of "[]" "lit ''a b''" "[]" "lit ''| ''" "lit ''a b'' @ [backtick]"]
    span_extractor [of "[]" "lit ''a b''" "[]" "lit ''| ''" "lit ''a b''"]
  by (simp add: process_table_line_def re_sub.simps match_here_def
      replace_code_def process_code_in_table_def py_str_defs chars)

text \<open>
  Claim C6. The line keeps its length, and every position outside the matched spans keeps
  its character: the backticks themselves, the text between spans, the text after the last
  backtick of the line (so the text after an unpaired one), and the whole of a line without
  a backtick.
\<close>

theorem outside_spans_unchanged:
  "length (process_table_line l) = length l \<and>
   length (span_mask l) = length l \<and>
   (\<forall>i < length l. \<not> span_mask l ! i \<longrightarrow> process_table_line l ! i = l ! i) \<and>
   (\<forall>i < length l. l ! i = backtick \<longrightarrow> \<not> span_mask l ! i) \<and>
   (backtick \<notin> set l \<longrightarrow> process_table_line l = l) \<and>
   (backtick \<notin> set rest \<longrightarrow>
      drop (length pre) (process_table_line (pre @ backtick # rest)) = backtick # rest)"
proof (intro conjI allI impI)
  show "length (process_table_line l) = length l" by (rule ptl_length)
  show "length (span_mask l) = length l" by (rule span_mask_length)
next
  fix i assume i: "i < length l" and m: "\<not> span_mask l ! i"
  have "outside_same (zip (span_mask l) l ! i) (process_table_line l ! i)"
    using ptl_outside [of l] i by (simp add: list_all2_conv_all_nth span_mask_length)
  with i m show "process_table_line l ! i = l ! i"
    by (simp add: outside_same_def span_mask_length)
next
  fix i assume i: "i < length l" and b: "l ! i = backtick"
  have "\<not> (span_mask l ! i \<and> l ! i = backtick)"
    using span_mask_backtick [of l] i by (simp add: list_all2_conv_all_nth)
  with b show "\<not> span_mask l ! i" by simp
next
  assume "backtick \<notin> set l"
  then show "process_table_line l = l" by (rule ptl_no_backtick)
next
  assume "backtick \<notin> set rest"
  then obtain out where "process_table_line (pre @ backtick # rest) = out @ backtick # rest"
    and "length out = length pre"
    using ptl_after_last_backtick by blast
  then show "drop (length pre) (process_table_line (pre @ backtick # rest)) = backtick # rest"
    by simp
qed

theorem outside_spans_unchanged_witness:
  "length (process_table_line (backtick # lit ''a b'' @ backtick # lit ''c'' @ backtick # lit ''d e'')) = 10 \<and>
   span_mask (backtick # lit ''a b'' @ backtick # lit ''c'' @ backtick # lit ''d e'') =
     [False, True, True, True, False, False, False, False, False, False] \<and>
   process_table_line (backtick # lit ''a b'' @ backtick # lit ''c'' @ backtick # lit ''d e'') ! 5 =
     of_char CHR ''c'' \<and>
   process_table_line (backtick # lit ''a b'' @ backtick # lit ''c'' @ backtick # lit ''d e'') ! 4 =
     backtick \<and>
   process_table_line (lit ''| a b |'') = lit ''| a b |'' \<and>
   drop 6 (process_table_line (backtick # lit ''a b'' @ backtick # lit ''c'' @ backtick # lit ''d e'')) =
     backtick # lit ''d e''"
  using outside_spans_unchanged
    [of "backtick # lit ''a b'' @ backtick # lit ''c'' @ backtick # lit ''d e''" "lit ''d e''"
        "backtick # lit ''a b'' @ backtick # lit ''c''"]
    outside_spans_unchanged [of "lit ''| a b |''" "[]" "[]"]
  by (simp add: process_table_line_def re_sub.simps span_mask.simps match_here_def
      replace_code_def process_code_in_table_def py_str_defs chars)




text \<open>
  Claim C8. The flag \<^verbatim>\<open>in_table\<close> moves as the specification says (true on a line
  whose stripped form starts with a pipe, false on a blank plain line met while it is true,
  unchanged on any other plain line), and the output does not depend on it: the loop gives
  the map without state, from either starting value of the flag.
\<close>

theorem in_table_vestigial:
  "fst (loop_body (in_table, processed) line) = spec_in_table in_table line \<and>
   line_loop (in_table, processed) lines =
     (foldl spec_in_table in_table lines, processed @ map spec_map_line lines) \<and>
   snd (line_loop (True, processed) lines) = snd (line_loop (False, processed) lines) \<and>
   process_lines lines = map spec_map_line lines"
  by (simp add: line_loop_run process_lines_map spec_in_table_def is_table_line_def)

text \<open>
  Claim C9. When the file cannot be read, the program opens it for reading, writes one
  message with the file name to standard error and exits with status 1; it neither opens
  the file for writing nor writes to it.
\<close>

theorem read_failure:
  "read_result sys filename = Inl e \<Longrightarrow>
   process_markdown_file sys filename =
     [OpenRead filename,
      Stderr (case e of
                FileNotFoundError \<Rightarrow>
                  lit ''Error: File '' @ [39] @ filename @ [39] @ lit '' not found.'' @ [10]
              | OtherException m \<Rightarrow>
                  lit ''Error reading file '' @ [39] @ filename @ [39] @ lit '': '' @ m @ [10]),
      Exit 1] \<and>
   main sys [prog, filename] = process_markdown_file sys filename \<and>
   \<not> list_ex is_write_event (process_markdown_file sys filename)"
  by (cases e) (simp_all add: process_markdown_file_def main_def is_write_event_def)

theorem read_failure_witness:
  "process_markdown_file
     \<lparr>read_result = (\<lambda>f. Inl FileNotFoundError), write_result = (\<lambda>f ls. None)\<rparr> (lit ''t.md'') =
     [OpenRead (lit ''t.md''),
      Stderr (lit ''Error: File '' @ [39] @ lit ''t.md'' @ [39] @ lit '' not found.'' @ [10]),
      Exit 1]"
  using read_failure [of "\<lparr>read_result = (\<lambda>f. Inl FileNotFoundError), write_result = (\<lambda>f ls. None)\<rparr>"
      "lit ''t.md''" FileNotFoundError "[]"]
  by simp

end
